theory Spec2Isabelle
  imports Main
begin

section \<open>Board: grids, reads and writes\<close>

text \<open>
  A \<^verbatim>\<open>SudokuGrid\<close> is \<^verbatim>\<open>CellValue[][]\<close>: a list of rows of numbers, 0 for an empty cell.
  The constants of \<^verbatim>\<open>gameConstants\<close> keep their names.
\<close>

type_synonym grid = "nat list list"

abbreviation (input) SUDOKU_SIZE :: nat where "SUDOKU_SIZE \<equiv> 9"
abbreviation (input) EMPTY_CELL :: nat where "EMPTY_CELL \<equiv> 0"
abbreviation (input) BOX_SIZE :: nat where "BOX_SIZE \<equiv> 3"

text \<open>
  The grids the program builds are 9 rows of 9 cells (\<^verbatim>\<open>createEmptyBoard\<close>, then writes at
  indices 0..8 only).
\<close>

definition wf_grid :: "grid \<Rightarrow> bool" where
  "wf_grid g = (length g = SUDOKU_SIZE \<and> list_all (\<lambda>row. length row = SUDOKU_SIZE) g)"

text \<open>
  The read \<^verbatim>\<open>grid[row][col]\<close>. An index outside a JavaScript array reads \<^verbatim>\<open>undefined\<close>,
  which is strictly equal to no number: \<open>None\<close> stands for it. (A missing row makes the
  source throw; the theorems about reads are stated for 9x9 grids, where no read is outside.)
\<close>

definition cell :: "grid \<Rightarrow> nat \<Rightarrow> nat \<Rightarrow> nat option" where
  "cell g r c = (if r < length g \<and> c < length (g ! r) then Some (g ! r ! c) else None)"

text \<open>The write \<^verbatim>\<open>grid[row][col] = v\<close>, in place in the source, a new grid here.\<close>

definition set_cell :: "grid \<Rightarrow> nat \<Rightarrow> nat \<Rightarrow> nat \<Rightarrow> grid" where
  "set_cell g r c v = g[r := (g ! r)[c := v]]"

text \<open>\<^verbatim>\<open>createEmptyBoard\<close> and \<^verbatim>\<open>deepCopyGrid\<close> (a copy of every row).\<close>

definition createEmptyBoard :: grid where
  "createEmptyBoard = replicate SUDOKU_SIZE (replicate SUDOKU_SIZE EMPTY_CELL)"

definition deepCopyGrid :: "grid \<Rightarrow> grid" where
  "deepCopyGrid g = map (\<lambda>row. row) g"

text \<open>
  The nested loops \<^verbatim>\<open>for row < 9, for col < 9\<close> visit the positions in row-major order.
\<close>

definition positions :: "(nat \<times> nat) list" where
  "positions = List.product [0..<SUDOKU_SIZE] [0..<SUDOKU_SIZE]"

text \<open>\<^verbatim>\<open>isSafe\<close>: the row, then the column, then the 3x3 box.\<close>

definition isSafe :: "grid \<Rightarrow> nat \<Rightarrow> nat \<Rightarrow> nat \<Rightarrow> bool" where
  "isSafe g row col num =
     (if num = EMPTY_CELL then True
      else if list_ex (\<lambda>x. cell g row x = Some num) [0..<SUDOKU_SIZE] then False
      else if list_ex (\<lambda>x. cell g x col = Some num) [0..<SUDOKU_SIZE] then False
      else
        (let startRow = row - row mod BOX_SIZE;
             startCol = col - col mod BOX_SIZE
         in \<not> list_ex (\<lambda>i. list_ex (\<lambda>j. cell g (startRow + i) (startCol + j) = Some num)
                  [0..<BOX_SIZE]) [0..<BOX_SIZE]))"

text \<open>\<^verbatim>\<open>findEmptyCells\<close>: the empty positions, in row-major order.\<close>

definition findEmptyCells :: "grid \<Rightarrow> (nat \<times> nat) list" where
  "findEmptyCells g = filter (\<lambda>(row, col). cell g row col = Some EMPTY_CELL) positions"

subsection \<open>Facts about reads, writes and positions\<close>

lemma set_positions: "set positions = {(r, c). r < 9 \<and> c < 9}"
  by (auto simp: positions_def)

lemma wf_gridD: "wf_grid g \<Longrightarrow> length g = 9" "wf_grid g \<Longrightarrow> r < 9 \<Longrightarrow> length (g ! r) = 9"
  by (auto simp: wf_grid_def list_all_length)

lemma cell_wf: "wf_grid g \<Longrightarrow> r < 9 \<Longrightarrow> c < 9 \<Longrightarrow> cell g r c = Some (g ! r ! c)"
  by (simp add: cell_def wf_gridD)

lemma wf_set_cell: "wf_grid g \<Longrightarrow> wf_grid (set_cell g r c v)"
  by (cases "r < length g") (auto simp: wf_grid_def set_cell_def list_all_length nth_list_update)

lemma nth_set_cell:
  "wf_grid g \<Longrightarrow> r < 9 \<Longrightarrow> c < 9 \<Longrightarrow>
   set_cell g r c v ! r' ! c' = (if r' = r \<and> c' = c then v else g ! r' ! c')"
  by (auto simp: set_cell_def wf_gridD nth_list_update)

lemma set_cell_twice: "set_cell (set_cell g r c u) r c v = set_cell g r c v"
  by (cases "r < length g") (simp_all add: set_cell_def list_update_beyond)

lemma set_cell_same: "set_cell g r c (g ! r ! c) = g"
  by (simp add: set_cell_def)

lemma set_cell_empty: "cell g r c = Some v \<Longrightarrow> set_cell g r c v = g"
  by (auto simp: cell_def set_cell_def split: if_splits)

lemma cell_set_cell:
  "cell (set_cell g r c v) r' c' =
     (if r' = r \<and> c' = c \<and> r < length g \<and> c < length (g ! r) then Some v else cell g r' c')"
proof (cases "r < length g")
  case False
  then show ?thesis by (simp add: cell_def set_cell_def list_update_beyond)
next
  case True
  then have row: "set_cell g r c v ! r' = (if r' = r then (g ! r)[c := v] else g ! r')"
    and len: "length (set_cell g r c v) = length g"
    by (simp_all add: set_cell_def nth_list_update)
  show ?thesis using True unfolding cell_def row len
    by (simp add: nth_list_update)
qed

lemma distinct_positions: "distinct positions"
  by (simp add: positions_def distinct_product)

subsection \<open>What \<^verbatim>\<open>isSafe\<close> tests\<close>

text \<open>
  Two positions share a unit when they are in the same row, the same column or the same
  3x3 box.
\<close>

definition same_unit :: "nat \<times> nat \<Rightarrow> nat \<times> nat \<Rightarrow> bool" where
  "same_unit p q = (fst p = fst q \<or> snd p = snd q \<or>
     (fst p div BOX_SIZE = fst q div BOX_SIZE \<and> snd p div BOX_SIZE = snd q div BOX_SIZE))"

lemma box_start: fixes row :: nat shows "row - row mod 3 = 3 * (row div 3)"
  by (simp add: minus_mod_eq_mult_div)

lemma box_offset_div: fixes row i :: nat shows "i < 3 \<Longrightarrow> (row - row mod 3 + i) div 3 = row div 3"
  by (simp add: box_start)

lemma box_offset_mod: fixes row r' :: nat
  shows "r' div 3 = row div 3 \<Longrightarrow> row - row mod 3 + r' mod 3 = r'"
  by (simp add: box_start) (metis mult_div_mod_eq)

lemma lt9_div3: fixes r :: nat shows "r < 9 \<longleftrightarrow> r div 3 < 3"
  by (simp add: div_less_iff_less_mult)

lemma box_cells:
  fixes P :: "nat \<Rightarrow> nat \<Rightarrow> bool" and row col :: nat
  shows "(\<exists>i<3. \<exists>j<3. P (row - row mod 3 + i) (col - col mod 3 + j)) \<longleftrightarrow>
   (\<exists>r' c'. r' div 3 = row div 3 \<and> c' div 3 = col div 3 \<and> P r' c')" (is "?L \<longleftrightarrow> ?R")
proof
  assume ?L
  then obtain i j :: nat where ij: "i < 3" "j < 3" "P (row - row mod 3 + i) (col - col mod 3 + j)"
    by blast
  have "(row - row mod 3 + i) div 3 = row div 3" using ij(1) by (rule box_offset_div)
  moreover have "(col - col mod 3 + j) div 3 = col div 3" using ij(2) by (rule box_offset_div)
  ultimately show ?R using ij(3) by blast
next
  assume ?R
  then obtain r' c' where rc: "r' div 3 = row div 3" "c' div 3 = col div 3" "P r' c'" by blast
  have r: "row - row mod 3 + r' mod 3 = r'" using rc(1) by (rule box_offset_mod)
  have c: "col - col mod 3 + c' mod 3 = c'" using rc(2) by (rule box_offset_mod)
  have "r' mod 3 < 3 \<and> c' mod 3 < 3 \<and> P (row - row mod 3 + r' mod 3) (col - col mod 3 + c' mod 3)"
    using rc(3) by (simp only: r c) simp
  then show ?L by blast
qed

lemma isSafe_iff:
  assumes "wf_grid g" "row < 9" "col < 9" "num \<noteq> 0"
  shows "isSafe g row col num \<longleftrightarrow>
         \<not> (\<exists>r'<9. \<exists>c'<9. same_unit (row, col) (r', c') \<and> g ! r' ! c' = num)"
proof -
  have rowp: "list_ex (\<lambda>x. cell g row x = Some num) [0..<9] \<longleftrightarrow> (\<exists>c'<9. g ! row ! c' = num)"
    using assms by (auto simp: list_ex_iff cell_wf)
  have colp: "list_ex (\<lambda>x. cell g x col = Some num) [0..<9] \<longleftrightarrow> (\<exists>r'<9. g ! r' ! col = num)"
    using assms by (auto simp: list_ex_iff cell_wf)
  have lt: "r' < 9" if "r' div 3 = row div 3" for r' using that assms(2) by (simp add: lt9_div3)
  have lt': "c' < 9" if "c' div 3 = col div 3" for c' using that assms(3) by (simp add: lt9_div3)
  have "list_ex (\<lambda>i. list_ex (\<lambda>j. cell g (row - row mod 3 + i) (col - col mod 3 + j) = Some num)
                  [0..<3]) [0..<3] \<longleftrightarrow>
        (\<exists>i<3. \<exists>j<3. cell g (row - row mod 3 + i) (col - col mod 3 + j) = Some num)"
    by (simp only: list_ex_iff set_upt Bex_def atLeastLessThan_iff le0 simp_thms)
  also have "\<dots> \<longleftrightarrow> (\<exists>r' c'. r' div 3 = row div 3 \<and> c' div 3 = col div 3 \<and> cell g r' c' = Some num)"
    by (rule box_cells)
  also have "\<dots> \<longleftrightarrow> (\<exists>r' c'. r' div 3 = row div 3 \<and> c' div 3 = col div 3 \<and> g ! r' ! c' = num)"
  proof -
    have "cell g r' c' = Some num \<longleftrightarrow> g ! r' ! c' = num"
      if "r' div 3 = row div 3" "c' div 3 = col div 3" for r' c'
      using cell_wf [OF assms(1) lt [OF that(1)] lt' [OF that(2)]] by simp
    then show ?thesis by blast
  qed
  finally have boxp: "list_ex (\<lambda>i. list_ex (\<lambda>j. cell g (row - row mod 3 + i) (col - col mod 3 + j) = Some num)
                  [0..<3]) [0..<3] \<longleftrightarrow>
        (\<exists>r' c'. r' div 3 = row div 3 \<and> c' div 3 = col div 3 \<and> g ! r' ! c' = num)" .
  have "isSafe g row col num \<longleftrightarrow>
        \<not> ((\<exists>c'<9. g ! row ! c' = num) \<or> (\<exists>r'<9. g ! r' ! col = num) \<or>
           (\<exists>r' c'. r' div 3 = row div 3 \<and> c' div 3 = col div 3 \<and> g ! r' ! c' = num))"
    using assms(4) unfolding isSafe_def Let_def rowp colp boxp by simp
  also have "\<dots> \<longleftrightarrow> \<not> (\<exists>r'<9. \<exists>c'<9. same_unit (row, col) (r', c') \<and> g ! r' ! c' = num)"
  proof -
    have "\<exists>r'<9. \<exists>c'<9. same_unit (row, col) (r', c') \<and> g ! r' ! c' = num"
      if "\<exists>c'<9. g ! row ! c' = num"
    proof -
      from that obtain c' where "c' < 9" "g ! row ! c' = num" by blast
      then have "row < 9 \<and> c' < 9 \<and> same_unit (row, col) (row, c') \<and> g ! row ! c' = num"
        using assms(2) by (simp add: same_unit_def)
      then show ?thesis by blast
    qed
    moreover have "\<exists>r'<9. \<exists>c'<9. same_unit (row, col) (r', c') \<and> g ! r' ! c' = num"
      if "\<exists>r'<9. g ! r' ! col = num"
    proof -
      from that obtain r' where "r' < 9" "g ! r' ! col = num" by blast
      then have "r' < 9 \<and> col < 9 \<and> same_unit (row, col) (r', col) \<and> g ! r' ! col = num"
        using assms(3) by (simp add: same_unit_def)
      then show ?thesis by blast
    qed
    moreover have "\<exists>r'<9. \<exists>c'<9. same_unit (row, col) (r', c') \<and> g ! r' ! c' = num"
      if "\<exists>r' c'. r' div 3 = row div 3 \<and> c' div 3 = col div 3 \<and> g ! r' ! c' = num"
    proof -
      from that obtain r' c' where rc: "r' div 3 = row div 3" "c' div 3 = col div 3" "g ! r' ! c' = num"
        by blast
      then have "r' < 9 \<and> c' < 9 \<and> same_unit (row, col) (r', c') \<and> g ! r' ! c' = num"
        using lt [OF rc(1)] lt' [OF rc(2)] by (simp add: same_unit_def)
      then show ?thesis by blast
    qed
    moreover have "(\<exists>c'<9. g ! row ! c' = num) \<or> (\<exists>r'<9. g ! r' ! col = num) \<or>
           (\<exists>r' c'. r' div 3 = row div 3 \<and> c' div 3 = col div 3 \<and> g ! r' ! c' = num)"
      if "\<exists>r'<9. \<exists>c'<9. same_unit (row, col) (r', c') \<and> g ! r' ! c' = num"
    proof -
      from that obtain r' c' where rc: "r' < 9" "c' < 9" "same_unit (row, col) (r', c')" "g ! r' ! c' = num"
        by blast
      from rc(3) consider "row = r'" | "col = c'" | "r' div 3 = row div 3 \<and> c' div 3 = col div 3"
        unfolding same_unit_def by auto
      then show ?thesis
      proof cases
        case 1 then show ?thesis using rc by blast
      next
        case 2 then show ?thesis using rc by blast
      next
        case 3 then show ?thesis using rc by blast
      qed
    qed
    ultimately show ?thesis by blast
  qed
  finally show ?thesis .
qed

section \<open>Validation\<close>

text \<open>
  \<^verbatim>\<open>validateBoard\<close>. The conflict keys \<^verbatim>\<open>`${row}-${col}`\<close> of the source's \<^verbatim>\<open>Set\<close> are the
  pairs \<open>(row, col)\<close> here. One step of the loop body, on the state (grid, isValid,
  conflicts): a filled cell is cleared, tested and restored.
\<close>

record ValidationResult =
  isValid :: bool
  conflicts :: "(nat \<times> nat) set"

definition validate_cell ::
  "grid \<times> bool \<times> (nat \<times> nat) set \<Rightarrow> nat \<times> nat \<Rightarrow> grid \<times> bool \<times> (nat \<times> nat) set" where
  "validate_cell st pos =
     (case st of (g, valid, confl) \<Rightarrow>
      case pos of (row, col) \<Rightarrow>
      (case cell g row col of
         None \<Rightarrow> st
       | Some v \<Rightarrow>
           if v \<noteq> EMPTY_CELL then
             (let g1 = set_cell g row col EMPTY_CELL;
                  unsafe = \<not> isSafe g1 row col v;
                  g2 = set_cell g1 row col v
              in (g2, (if unsafe then False else valid),
                      (if unsafe then insert (row, col) confl else confl)))
           else st))"

definition validateBoard_run :: "grid \<Rightarrow> grid \<times> bool \<times> (nat \<times> nat) set" where
  "validateBoard_run g = foldl validate_cell (g, True, {}) positions"

definition validateBoard :: "grid \<Rightarrow> ValidationResult" where
  "validateBoard g =
     (case validateBoard_run g of (g', valid, confl) \<Rightarrow>
        \<lparr>isValid = valid, conflicts = confl\<rparr>)"

text \<open>
  The conflict of the specification: the cell is filled and another cell of one of its units
  holds the same value.
\<close>

definition has_conflict :: "grid \<Rightarrow> nat \<times> nat \<Rightarrow> bool" where
  "has_conflict g p =
     (case cell g (fst p) (snd p) of
        None \<Rightarrow> False
      | Some v \<Rightarrow> v \<noteq> EMPTY_CELL \<and>
          list_ex (\<lambda>q. q \<noteq> p \<and> same_unit p q \<and> cell g (fst q) (snd q) = Some v) positions)"

lemma has_conflict_wf:
  assumes "wf_grid g" "row < 9" "col < 9"
  shows "has_conflict g (row, col) \<longleftrightarrow>
         g ! row ! col \<noteq> 0 \<and>
         (\<exists>r'<9. \<exists>c'<9. (r', c') \<noteq> (row, col) \<and> same_unit (row, col) (r', c') \<and>
            g ! r' ! c' = g ! row ! col)"
proof -
  have "list_ex (\<lambda>q. q \<noteq> (row, col) \<and> same_unit (row, col) q \<and> cell g (fst q) (snd q) = Some v) positions
        \<longleftrightarrow> (\<exists>r'<9. \<exists>c'<9. (r', c') \<noteq> (row, col) \<and> same_unit (row, col) (r', c') \<and> g ! r' ! c' = v)"
    for v
    unfolding list_ex_iff set_positions using assms(1) by (auto simp: cell_wf)
  then show ?thesis using assms by (simp add: has_conflict_def cell_wf)
qed

lemma validate_cell_wf:
  assumes "wf_grid g" "row < 9" "col < 9"
  shows "validate_cell (g, valid, confl) (row, col) =
         (g, valid \<and> \<not> has_conflict g (row, col),
          if has_conflict g (row, col) then insert (row, col) confl else confl)"
proof (cases "g ! row ! col = 0")
  case True
  then show ?thesis using assms by (simp add: validate_cell_def cell_wf has_conflict_wf)
next
  case False
  let ?v = "g ! row ! col"
  let ?g1 = "set_cell g row col 0"
  have wf1: "wf_grid ?g1" using assms(1) by (rule wf_set_cell)
  have "isSafe ?g1 row col ?v \<longleftrightarrow>
        \<not> (\<exists>r'<9. \<exists>c'<9. same_unit (row, col) (r', c') \<and> ?g1 ! r' ! c' = ?v)"
    using wf1 assms(2,3) False by (rule isSafe_iff)
  also have "(\<exists>r'<9. \<exists>c'<9. same_unit (row, col) (r', c') \<and> ?g1 ! r' ! c' = ?v) \<longleftrightarrow>
        (\<exists>r'<9. \<exists>c'<9. (r', c') \<noteq> (row, col) \<and> same_unit (row, col) (r', c') \<and> g ! r' ! c' = ?v)"
    using False by (auto simp: nth_set_cell [OF assms])
  finally have safe: "isSafe ?g1 row col ?v \<longleftrightarrow> \<not> has_conflict g (row, col)"
    using False by (simp add: has_conflict_wf [OF assms])
  have restore: "set_cell ?g1 row col ?v = g"
    by (simp add: set_cell_twice set_cell_same)
  show ?thesis using False safe restore assms
    by (simp add: validate_cell_def cell_wf Let_def)
qed

lemma foldl_validate_cell:
  assumes "wf_grid g" "set ps \<subseteq> set positions"
  shows "foldl validate_cell (g, valid, confl) ps =
         (g, valid \<and> (\<forall>p\<in>set ps. \<not> has_conflict g p), confl \<union> {p \<in> set ps. has_conflict g p})"
  using assms(2)
proof (induction ps arbitrary: valid confl)
  case Nil
  then show ?case by simp
next
  case (Cons p ps)
  obtain row col where p: "p = (row, col)" by (cases p)
  with Cons.prems have rc: "row < 9" "col < 9" by (auto simp: set_positions)
  from Cons.prems have sub: "set ps \<subseteq> set positions" by simp
  show ?case
    unfolding p foldl_Cons validate_cell_wf [OF assms(1) rc] Cons.IH [OF sub]
    by auto
qed

lemma validateBoard_run_wf:
  assumes "wf_grid g"
  shows "validateBoard_run g =
         (g, \<forall>p\<in>set positions. \<not> has_conflict g p, {p \<in> set positions. has_conflict g p})"
  unfolding validateBoard_run_def foldl_validate_cell [OF assms subset_refl] by simp

section \<open>Hints\<close>

text \<open>
  \<^verbatim>\<open>getHint\<close>. \<^verbatim>\<open>possibilities\<close> is the number of values 1..9 that \<^verbatim>\<open>isSafe\<close> accepts at the
  cell. \<^verbatim>\<open>Array.prototype.sort\<close> with the comparator \<^verbatim>\<open>a.possibilities - b.possibilities\<close> is a
  stable sort by that key (ECMAScript 2019), here \<open>sort_key\<close>. The hint's value is the read
  \<^verbatim>\<open>solution[row][col]\<close>.
\<close>

record Hint =
  hint_row :: nat
  hint_col :: nat
  hint_value :: "nat option"

definition possibilities :: "grid \<Rightarrow> nat \<times> nat \<Rightarrow> nat" where
  "possibilities g pos =
     (case pos of (row, col) \<Rightarrow> length (filter (\<lambda>num. isSafe g row col num) [1..<10]))"

definition getHint :: "grid \<Rightarrow> grid \<Rightarrow> Hint option" where
  "getHint currentGrid solution =
     (let emptyCells = findEmptyCells currentGrid in
      if length emptyCells = 0 then None
      else
        (let cellsWithPossibilities = map (\<lambda>p. (p, possibilities currentGrid p)) emptyCells;
             sorted = sort_key snd cellsWithPossibilities;
             hintCell = fst (hd sorted)
         in Some \<lparr>hint_row = fst hintCell, hint_col = snd hintCell,
                  hint_value = cell solution (fst hintCell) (snd hintCell)\<rparr>))"

text \<open>The row-major rank of a position.\<close>

definition row_major_index :: "nat \<times> nat \<Rightarrow> nat" where
  "row_major_index p = fst p * SUDOKU_SIZE + snd p"

lemma hd_insort_key:
  "hd (insort_key f x xs) = (if xs = [] \<or> f x \<le> f (hd xs) then x else hd xs)"
  by (cases xs) auto

lemma hd_sort_key_first_min:
  assumes "xs \<noteq> []"
  shows "\<exists>ys zs. xs = ys @ hd (sort_key f xs) # zs \<and> (\<forall>y\<in>set ys. f (hd (sort_key f xs)) < f y)
            \<and> (\<forall>z\<in>set zs. f (hd (sort_key f xs)) \<le> f z)"
  using assms
proof (induction xs)
  case Nil
  then show ?case by simp
next
  case (Cons x xs)
  show ?case
  proof (cases "xs = []")
    case True
    then show ?thesis by (intro exI [of _ "[]"]) simp
  next
    case False
    from Cons.IH [OF False] obtain ys zs where
      split: "xs = ys @ hd (sort_key f xs) # zs"
      and before: "\<forall>y\<in>set ys. f (hd (sort_key f xs)) < f y"
      and after: "\<forall>z\<in>set zs. f (hd (sort_key f xs)) \<le> f z"
      by blast
    let ?m = "hd (sort_key f xs)"
    have ne: "sort_key f xs \<noteq> []" using False by (metis length_0_conv length_sort)
    have hd_eq: "hd (sort_key f (x # xs)) = (if f x \<le> f ?m then x else ?m)"
      using ne by (simp add: hd_insort_key)
    show ?thesis
    proof (cases "f x \<le> f ?m")
      case True
      have "x # xs = [] @ x # xs" by simp
      moreover have "\<forall>z\<in>set xs. f x \<le> f z"
      proof
        fix z assume "z \<in> set xs"
        then have "z \<in> set ys \<or> z = ?m \<or> z \<in> set zs"
          by (subst (asm) split) auto
        then show "f x \<le> f z" using True before after by force
      qed
      ultimately show ?thesis using True hd_eq
        by (intro exI [of _ "[]"] exI [of _ xs]) simp
    next
      case False
      have "x # xs = (x # ys) @ ?m # zs" using split by simp
      moreover have "\<forall>y\<in>set (x # ys). f ?m < f y" using False before by auto
      ultimately show ?thesis using after hd_eq False
        by (intro exI [of _ "x # ys"] exI [of _ zs]) simp
    qed
  qed
qed

lemma row_major_positions: "map row_major_index positions = [0..<81]"
  by (simp add: positions_def row_major_index_def upt_conv_Cons)

lemma sorted_positions: "sorted_wrt (\<lambda>p q. row_major_index p < row_major_index q) positions"
proof -
  have "sorted_wrt (<) (map row_major_index positions)"
    unfolding row_major_positions by simp
  then show ?thesis by (simp add: sorted_wrt_map)
qed

lemma set_findEmptyCells:
  "set (findEmptyCells g) = {(r, c). r < 9 \<and> c < 9 \<and> cell g r c = Some 0}"
  by (auto simp: findEmptyCells_def set_positions)

lemma sorted_findEmptyCells:
  "sorted_wrt (\<lambda>p q. row_major_index p < row_major_index q) (findEmptyCells g)"
  unfolding findEmptyCells_def by (rule sorted_wrt_filter [OF sorted_positions])

lemma insort_key_snd_map:
  "insort_key snd (p, k p) (map (\<lambda>q. (q, k q)) ys) = map (\<lambda>q. (q, k q)) (insort_key k p ys)"
  by (induction ys) auto

lemma sort_key_snd_map:
  "sort_key snd (map (\<lambda>q. (q, k q)) xs) = map (\<lambda>q. (q, k q)) (sort_key k xs)"
  by (induction xs) (auto simp: insort_key_snd_map)

lemma getHint_unfold:
  "getHint g s =
     (if findEmptyCells g = [] then None
      else Some \<lparr>hint_row = fst (hd (sort_key (possibilities g) (findEmptyCells g))),
                 hint_col = snd (hd (sort_key (possibilities g) (findEmptyCells g))),
                 hint_value = cell s (fst (hd (sort_key (possibilities g) (findEmptyCells g))))
                                     (snd (hd (sort_key (possibilities g) (findEmptyCells g))))\<rparr>)"
proof (cases "findEmptyCells g = []")
  case True
  then show ?thesis by (simp add: getHint_def)
next
  case False
  then have "sort_key (possibilities g) (findEmptyCells g) \<noteq> []"
    by (metis length_0_conv length_sort)
  then show ?thesis using False
    by (simp add: getHint_def Let_def sort_key_snd_map hd_map)
qed

lemma hd_sort_key_mem: "xs \<noteq> [] \<Longrightarrow> hd (sort_key f xs) \<in> set xs"
  by (metis hd_in_set length_0_conv length_sort set_sort)

section \<open>Randomness\<close>

text \<open>
  \<^verbatim>\<open>Math.random()\<close> is the only source of randomness. The model takes it as an input: an
  infinite sequence of draws and the number of draws consumed so far. The draw
  \<^verbatim>\<open>Math.floor(Math.random() * bound)\<close> is an index below \<open>bound\<close>.
\<close>

type_synonym rng = "(nat \<Rightarrow> nat) \<times> nat"

definition random_index :: "rng \<Rightarrow> nat \<Rightarrow> nat \<times> rng" where
  "random_index rng bound = (case rng of (f, k) \<Rightarrow> (f k mod bound, (f, Suc k)))"

text \<open>
  \<^verbatim>\<open>shuffleArray\<close> (Fisher-Yates): for \<open>i\<close> from \<open>length - 1\<close> down to 1, swap the elements
  at \<open>i\<close> and at a random \<open>j \<le> i\<close>.
\<close>

fun shuffle_loop :: "nat \<Rightarrow> 'a list \<Rightarrow> rng \<Rightarrow> 'a list \<times> rng" where
  "shuffle_loop 0 shuffled rng = (shuffled, rng)"
| "shuffle_loop (Suc n) shuffled rng =
     (case random_index rng (Suc n + 1) of (j, rng') \<Rightarrow>
        shuffle_loop n (shuffled[Suc n := shuffled ! j, j := shuffled ! Suc n]) rng')"

definition shuffleArray :: "'a list \<Rightarrow> rng \<Rightarrow> 'a list \<times> rng" where
  "shuffleArray array rng = shuffle_loop (length array - 1) array rng"

text \<open>The source in which every draw is 0.\<close>

definition rng0 :: rng where
  "rng0 = (\<lambda>k. 0, 0)"

section \<open>Backtracking solver\<close>

text \<open>
  \<^verbatim>\<open>solveSudoku\<close> mutates the grid in place; the model returns the result, the grid as the
  call leaves it and the random source. \<open>tryNumbers\<close> is the loop \<^verbatim>\<open>for (const num of numbers)\<close>
  at the first empty cell. The \<^verbatim>\<open>try/catch\<close> of the source catches nothing on a 9x9 grid: no
  statement of the body throws there.
\<close>

function solveSudoku :: "grid \<Rightarrow> nat \<Rightarrow> rng \<Rightarrow> bool \<times> grid \<times> rng"
  and tryNumbers :: "grid \<Rightarrow> nat \<Rightarrow> nat \<Rightarrow> nat list \<Rightarrow> nat \<Rightarrow> rng \<Rightarrow> bool \<times> grid \<times> rng"
where
  "solveSudoku g depth rng =
     (if depth > 1000 then (False, g, rng)
      else
        (case find (\<lambda>(row, col). cell g row col = Some EMPTY_CELL) positions of
           None \<Rightarrow> (True, g, rng)
         | Some (row, col) \<Rightarrow>
             (case shuffleArray [1, 2, 3, 4, 5, 6, 7, 8, 9] rng of (numbers, rng') \<Rightarrow>
                tryNumbers g row col numbers depth rng')))"
| "tryNumbers g row col [] depth rng = (False, g, rng)"
| "tryNumbers g row col (num # rest) depth rng =
     (if isSafe g row col num then
        (case solveSudoku (set_cell g row col num) (depth + 1) rng of (solved, g', rng') \<Rightarrow>
           if solved then (True, g', rng')
           else tryNumbers (set_cell g' row col EMPTY_CELL) row col rest depth rng')
      else tryNumbers g row col rest depth rng)"
  by pat_completeness auto
termination
  by (relation "(\<lambda>x. case x of
                    Inl (g, depth, rng) \<Rightarrow> if depth > 1000 then 0 else 2 * (1001 - depth)
                  | Inr (g, row, col, nums, depth, rng) \<Rightarrow>
                      if depth > 1000 then 1 else 2 * (1001 - depth) - 1)
              <*mlex*> measure (\<lambda>x. case x of Inl _ \<Rightarrow> 0
                  | Inr (g, row, col, nums, depth, rng) \<Rightarrow> length nums)")
     (auto simp: wf_mlex mlex_prod_def)



lemma find_empty_SomeD:
  "find (\<lambda>(row, col). cell g row col = Some 0) positions = Some (r, c) \<Longrightarrow> cell g r c = Some 0"
  by (auto simp: find_Some_iff)

lemma solveSudoku_failure_restores_aux:
  "(\<forall>g' rng'. solveSudoku g depth rng = (False, g', rng') \<longrightarrow> g' = g)"
  "(\<forall>g' rng'. tryNumbers g row col nums depth rng = (False, g', rng') \<longrightarrow>
      g' = g \<or> g' = set_cell g row col 0)"
proof (induction g depth rng and g row col nums depth rng rule: solveSudoku_tryNumbers.induct)
  case (1 g depth rng)
  show ?case
  proof (intro allI impI)
    fix g' rng' assume res: "solveSudoku g depth rng = (False, g', rng')"
    show "g' = g"
    proof (cases "depth > 1000")
      case True
      with res show ?thesis by simp
    next
      case False
      note deep = this
      show ?thesis
      proof (cases "find (\<lambda>(row, col). cell g row col = Some 0) positions")
        case None
        with res deep show ?thesis by simp
      next
        case (Some p)
        obtain row col where p: "p = (row, col)" by (cases p)
        obtain numbers rng1 where sh: "shuffleArray [1::nat, 2, 3, 4, 5, 6, 7, 8, 9] rng = (numbers, rng1)"
          by (metis surj_pair)
        from res deep Some p sh have "tryNumbers g row col numbers depth rng1 = (False, g', rng')"
          by simp
        with "1.IH" [OF deep Some [unfolded p] refl sh [symmetric]]
        have "g' = g \<or> g' = set_cell g row col 0" by blast
        moreover have "set_cell g row col 0 = g"
          using find_empty_SomeD [OF Some [unfolded p]] by (rule set_cell_empty)
        ultimately show ?thesis by simp
      qed
    qed
  qed
next
  case (2 g row col depth rng)
  show ?case by simp
next
  case (3 g row col num rest depth rng)
  show ?case
  proof (intro allI impI)
    fix g' rng' assume res: "tryNumbers g row col (num # rest) depth rng = (False, g', rng')"
    show "g' = g \<or> g' = set_cell g row col 0"
    proof (cases "isSafe g row col num")
      case False
      with res have "tryNumbers g row col rest depth rng = (False, g', rng')" by simp
      with "3.IH"(3) [OF False] show ?thesis by blast
    next
      case True
      obtain solved g1 rng1 where rec: "solveSudoku (set_cell g row col num) (depth + 1) rng = (solved, g1, rng1)"
        by (metis surj_pair)
      show ?thesis
      proof (cases solved)
        case True
        with res \<open>isSafe g row col num\<close> rec show ?thesis by simp
      next
        case False
        with rec "3.IH"(1) [OF True] have g1: "g1 = set_cell g row col num" by simp
        from res True rec False
        have "tryNumbers (set_cell g1 row col 0) row col rest depth rng1 = (False, g', rng')" by simp
        with "3.IH"(2) [OF True rec [symmetric] refl False]
        have "g' = set_cell g1 row col 0 \<or> g' = set_cell (set_cell g1 row col 0) row col 0" by blast
        then show ?thesis by (simp add: g1 set_cell_twice)
      qed
    qed
  qed
qed

section \<open>Complete-grid generator\<close>

text \<open>
  \<^verbatim>\<open>fillBox\<close> writes the nine shuffled numbers into the box whose top-left corner is
  \<open>(row, col)\<close>, row by row; \<^verbatim>\<open>fillDiagonalBoxes\<close> does so for the corners 0, 3 and 6;
  \<^verbatim>\<open>generateCompleteSudoku\<close> then runs the solver and returns the grid whatever the solver
  answered.
\<close>

definition fillBox :: "grid \<Rightarrow> nat \<Rightarrow> nat \<Rightarrow> rng \<Rightarrow> grid \<times> rng" where
  "fillBox g row col rng =
     (case shuffleArray [1, 2, 3, 4, 5, 6, 7, 8, 9] rng of (numbers, rng') \<Rightarrow>
        (foldl (\<lambda>g' (index, (r, c)). set_cell g' r c (numbers ! index)) g
           (enumerate 0 (List.product [row..<row + 3] [col..<col + 3])), rng'))"

definition fillDiagonalBoxes :: "grid \<Rightarrow> rng \<Rightarrow> grid \<times> rng" where
  "fillDiagonalBoxes g rng =
     foldl (\<lambda>(g', rng') box. fillBox g' box box rng') (g, rng) [0, 3, 6]"

definition generateCompleteSudoku :: "rng \<Rightarrow> grid \<times> rng" where
  "generateCompleteSudoku rng =
     (case fillDiagonalBoxes createEmptyBoard rng of (g, rng') \<Rightarrow>
        (case solveSudoku g 0 rng' of (solved, g', rng'') \<Rightarrow> (g', rng'')))"

section \<open>Solution counter\<close>

text \<open>
  The closure \<^verbatim>\<open>solve\<close> of \<^verbatim>\<open>countSolutions\<close> works on one board and one counter, both
  mutable; the model passes them through. \<open>solve_try\<close> is the loop
  \<^verbatim>\<open>for (num = 1; num <= 9; num++)\<close> at the first empty cell.
\<close>

function solve :: "grid \<Rightarrow> nat \<Rightarrow> nat \<Rightarrow> grid \<times> nat"
  and solve_try :: "grid \<Rightarrow> nat \<Rightarrow> nat \<Rightarrow> nat \<Rightarrow> nat \<Rightarrow> nat \<Rightarrow> grid \<times> nat"
where
  "solve board solutionCount maxSolutions =
     (if solutionCount \<ge> maxSolutions then (board, solutionCount)
      else
        (case find (\<lambda>(r, c). cell board r c = Some EMPTY_CELL) positions of
           None \<Rightarrow> (board, solutionCount + 1)
         | Some (row, col) \<Rightarrow> solve_try board row col 1 solutionCount maxSolutions))"
| "solve_try board row col num solutionCount maxSolutions =
     (if num \<le> 9 then
        (if isSafe board row col num then
           (case solve (set_cell board row col num) solutionCount maxSolutions of
              (board', solutionCount') \<Rightarrow>
                if solutionCount' \<ge> maxSolutions
                then (set_cell board' row col EMPTY_CELL, solutionCount')
                else solve_try (set_cell board' row col EMPTY_CELL) row col (num + 1)
                       solutionCount' maxSolutions)
         else solve_try board row col (num + 1) solutionCount maxSolutions)
      else (board, solutionCount))"
  by pat_completeness auto

lemma solve_board_restored:
  "solve_solve_try_dom (Inl (board, n, m)) \<Longrightarrow> fst (solve board n m) = board"
  "solve_solve_try_dom (Inr (board, row, col, num, n, m)) \<Longrightarrow>
     fst (solve_try board row col num n m) = board \<or>
     fst (solve_try board row col num n m) = set_cell board row col 0"
proof (induction board n m and board row col num n m rule: solve_solve_try.pinduct)
  case (1 board n m)
  show ?case
  proof (cases "n \<ge> m")
    case True
    then show ?thesis using "1.hyps" by (simp add: solve.psimps)
  next
    case False
    show ?thesis
    proof (cases "find (\<lambda>(r, c). cell board r c = Some 0) positions")
      case None
      then show ?thesis using False "1.hyps" by (simp add: solve.psimps)
    next
      case (Some p)
      obtain row col where p: "p = (row, col)" by (cases p)
      have eq: "solve board n m = solve_try board row col 1 n m"
        using False Some p "1.hyps" by (simp add: solve.psimps)
      have "set_cell board row col 0 = board"
        using find_empty_SomeD [OF Some [unfolded p]] by (rule set_cell_empty)
      with "1.IH" [OF False Some [unfolded p] refl] show ?thesis by (auto simp: eq)
    qed
  qed
next
  case (2 board row col num n m)
  show ?case
  proof (cases "num \<le> 9")
    case False
    then show ?thesis using "2.hyps" by (simp add: solve_try.psimps)
  next
    case le: True
    show ?thesis
    proof (cases "isSafe board row col num")
      case False
      then have "solve_try board row col num n m = solve_try board row col (num + 1) n m"
        using le "2.hyps" by (simp add: solve_try.psimps)
      with "2.IH"(3) [OF le False] show ?thesis by simp
    next
      case True
      obtain b1 c1 where rec: "solve (set_cell board row col num) n m = (b1, c1)"
        by (metis surj_pair)
      from "2.IH"(1) [OF le True] rec have b1: "b1 = set_cell board row col num" by simp
      show ?thesis
      proof (cases "c1 \<ge> m")
        case True
        with le \<open>isSafe board row col num\<close> rec "2.hyps" show ?thesis
          by (simp add: solve_try.psimps b1 set_cell_twice)
      next
        case False
        with le True rec "2.hyps"
        have eq: "solve_try board row col num n m = solve_try (set_cell b1 row col 0) row col (num + 1) c1 m"
          by (simp add: solve_try.psimps)
        from "2.IH"(2) [OF le True rec [symmetric] False]
        show ?thesis by (simp add: eq b1 set_cell_twice)
      qed
    qed
  qed
qed

definition empty_set :: "grid \<Rightarrow> (nat \<times> nat) set" where
  "empty_set g = {p \<in> set positions. cell g (fst p) (snd p) = Some 0}"

lemma finite_empty_set: "finite (empty_set g)"
  by (simp add: empty_set_def)

lemma length_findEmptyCells: "length (findEmptyCells g) = card (empty_set g)"
proof -
  have "(\<lambda>(row, col). cell g row col = Some 0) = (\<lambda>p. cell g (fst p) (snd p) = Some 0)"
    by (simp add: fun_eq_iff)
  then show ?thesis
    by (simp add: findEmptyCells_def empty_set_def distinct_length_filter [OF distinct_positions]
        Int_def conj_commute)
qed

lemma empty_set_fill:
  "v \<noteq> 0 \<Longrightarrow> empty_set (set_cell g r c v) = empty_set g - {(r, c)}"
  by (auto simp: empty_set_def cell_set_cell split: if_splits) (auto simp: cell_def split: if_splits)

lemma empty_set_clear:
  "empty_set (set_cell g r c 0) \<subseteq> insert (r, c) (empty_set g)"
  by (auto simp: empty_set_def cell_set_cell split: if_splits)

lemma empties_fill_mem:
  assumes "v \<noteq> 0" "(r, c) \<in> empty_set g"
  shows "Suc (length (findEmptyCells (set_cell g r c v))) = length (findEmptyCells g)"
  using card_Suc_Diff1 [OF finite_empty_set assms(2)]
  by (simp only: length_findEmptyCells empty_set_fill [OF assms(1)])

lemma empties_clear_le:
  "length (findEmptyCells (set_cell g r c 0)) \<le> Suc (length (findEmptyCells (set_cell g r c 1)))"
proof -
  have "card (empty_set (set_cell g r c 0)) \<le> card (insert (r, c) (empty_set g))"
    by (rule card_mono [OF _ empty_set_clear]) (simp add: finite_empty_set)
  also have "\<dots> = Suc (card (empty_set g - {(r, c)}))"
    by (rule card.insert_remove [OF finite_empty_set])
  also have "empty_set g - {(r, c)} = empty_set (set_cell g r c 1)"
    by (rule empty_set_fill [symmetric]) simp
  finally show ?thesis by (simp only: length_findEmptyCells)
qed

lemma empties_fill_any:
  "v \<noteq> 0 \<Longrightarrow> length (findEmptyCells (set_cell g r c v)) = length (findEmptyCells (set_cell g r c 1))"
  by (simp add: length_findEmptyCells empty_set_fill)

lemma find_empty_mem:
  "find (\<lambda>(row, col). cell g row col = Some 0) positions = Some (r, c) \<Longrightarrow> (r, c) \<in> empty_set g"
  by (auto simp: find_Some_iff empty_set_def in_set_conv_nth)

definition solve_measure1 :: "(grid \<times> nat \<times> nat) + (grid \<times> nat \<times> nat \<times> nat \<times> nat \<times> nat) \<Rightarrow> nat" where
  "solve_measure1 x =
     (case x of
        Inl (board, n, m) \<Rightarrow> 3 * length (findEmptyCells board)
      | Inr (board, row, col, num, n, m) \<Rightarrow>
          3 * length (findEmptyCells (set_cell board row col 1)) + (if num = 0 then 4 else 2))"

definition solve_measure2 :: "(grid \<times> nat \<times> nat) + (grid \<times> nat \<times> nat \<times> nat \<times> nat \<times> nat) \<Rightarrow> nat" where
  "solve_measure2 x = (case x of Inl _ \<Rightarrow> 0 | Inr (board, row, col, num, n, m) \<Rightarrow> 10 - num)"

termination solve
proof (relation "measures [solve_measure1, solve_measure2]", goal_cases)
  case 1
  show ?case by simp
next
  case (2 board n m p row col)
  then have "(row, col) \<in> empty_set board" by (auto intro: find_empty_mem)
  from empties_fill_mem [OF _ this, of 1] show ?case
    by (simp add: solve_measure1_def)
next
  case (3 board row col num n m)
  show ?case
  proof (cases "num = 0")
    case True
    then show ?thesis using empties_clear_le [of board row col]
      by (simp add: solve_measure1_def)
  next
    case False
    then show ?thesis using empties_fill_any [of num board row col]
      by (simp add: solve_measure1_def)
  qed
next
  case (4 board row col num n m b1 c1)
  then have b1: "b1 = set_cell board row col num"
    using solve_board_restored(1) [of "set_cell board row col num" n m] by (metis fst_conv)
  have "num \<noteq> 0 \<Longrightarrow> 10 - (num + 1) < 10 - num" using 4(1) by arith
  then show ?case
    by (auto simp: solve_measure1_def solve_measure2_def b1 set_cell_twice)
next
  case (5 board row col num n m)
  then have "10 - (num + 1) < 10 - num" by arith
  then show ?case by (auto simp: solve_measure1_def solve_measure2_def)
qed

definition countSolutions :: "grid \<Rightarrow> nat \<Rightarrow> nat" where
  "countSolutions g maxSolutions = snd (solve (deepCopyGrid g) 0 maxSolutions)"

definition hasUniqueSolution :: "grid \<Rightarrow> bool" where
  "hasUniqueSolution g =
     (let emptyCells = findEmptyCells g;
          filledCells = SUDOKU_SIZE * SUDOKU_SIZE - length emptyCells
      in if filledCells < 17 then False
         else (let solutions = countSolutions g 2 in solutions = 1))"

section \<open>Logic-only checker\<close>

text \<open>
  \<^verbatim>\<open>isSolvableWithoutGuessing\<close>. One pass of the two nested loops is a fold over the
  positions whose state is the working grid and \<^verbatim>\<open>madeProgress\<close>; \<open>None\<close> is the early
  \<^verbatim>\<open>return false\<close> at a cell with no candidate. \<open>singles_loop\<close> is the \<^verbatim>\<open>while\<close> loop.
\<close>

definition singles_step :: "(grid \<times> bool) option \<Rightarrow> nat \<times> nat \<Rightarrow> (grid \<times> bool) option" where
  "singles_step st pos =
     (case st of
        None \<Rightarrow> None
      | Some (workGrid, madeProgress) \<Rightarrow>
          (case pos of (row, col) \<Rightarrow>
             if cell workGrid row col = Some EMPTY_CELL then
               (let candidates = filter (\<lambda>num. isSafe workGrid row col num) [1..<10] in
                if length candidates = 1
                then Some (set_cell workGrid row col (hd candidates), True)
                else if length candidates = 0 then None
                else st)
             else st))"

definition singles_pass :: "grid \<Rightarrow> (grid \<times> bool) option" where
  "singles_pass workGrid = foldl singles_step (Some (workGrid, False)) positions"

lemma singles_step_None: "foldl singles_step None ps = None"
  by (induction ps) (simp_all add: singles_step_def)

lemma singles_fold_empties:
  assumes "set ps \<subseteq> set positions"
    and "foldl singles_step (Some (g, b)) ps = Some (g', b')"
  shows "length (findEmptyCells g') \<le> length (findEmptyCells g) \<and>
         (b' \<and> \<not> b \<longrightarrow> length (findEmptyCells g') < length (findEmptyCells g))"
  using assms
proof (induction ps arbitrary: g b)
  case Nil
  then show ?case by simp
next
  case (Cons p ps)
  obtain row col where p: "p = (row, col)" by (cases p)
  from Cons.prems(1) have sub: "set ps \<subseteq> set positions" and mem: "(row, col) \<in> set positions"
    by (simp_all add: p)
  let ?cands = "filter (\<lambda>num. isSafe g row col num) [1..<10]"
  show ?case
  proof (cases "cell g row col = Some 0 \<and> length ?cands = 1")
    case True
    then have step: "singles_step (Some (g, b)) p = Some (set_cell g row col (hd ?cands), True)"
      by (simp add: singles_step_def p)
    from True have "hd ?cands \<in> set ?cands" by (cases ?cands) simp_all
    then have nz: "hd ?cands \<noteq> 0" by auto
    have "(row, col) \<in> empty_set g" using True mem by (simp add: empty_set_def)
    from empties_fill_mem [OF nz this]
    have less: "length (findEmptyCells (set_cell g row col (hd ?cands))) < length (findEmptyCells g)"
      by arith
    from Cons.prems(2) step
    have "foldl singles_step (Some (set_cell g row col (hd ?cands), True)) ps = Some (g', b')"
      by simp
    from Cons.IH [OF sub this] less show ?thesis by arith
  next
    case False
    show ?thesis
    proof (cases "singles_step (Some (g, b)) p")
      case None
      with Cons.prems(2) show ?thesis by (simp add: singles_step_None)
    next
      case (Some st)
      with False have "st = (g, b)"
        by (auto simp: singles_step_def p Let_def split: if_splits)
      with Cons.prems(2) Some have "foldl singles_step (Some (g, b)) ps = Some (g', b')" by simp
      from Cons.IH [OF sub this] show ?thesis .
    qed
  qed
qed

function singles_loop :: "grid \<Rightarrow> bool" where
  "singles_loop workGrid =
     (case singles_pass workGrid of
        None \<Rightarrow> False
      | Some (workGrid', madeProgress) \<Rightarrow>
          if madeProgress then singles_loop workGrid'
          else length (findEmptyCells workGrid') = 0)"
  by pat_completeness auto
termination
proof (relation "measure (\<lambda>g. length (findEmptyCells g))", goal_cases)
  case 1
  show ?case by simp
next
  case (2 workGrid st workGrid' madeProgress)
  then have "foldl singles_step (Some (workGrid, False)) positions = Some (workGrid', True)"
    by (simp add: singles_pass_def)
  from singles_fold_empties [OF subset_refl this] show ?case by simp
qed

definition isSolvableWithoutGuessing :: "grid \<Rightarrow> bool" where
  "isSolvableWithoutGuessing g = singles_loop (deepCopyGrid g)"

section \<open>Puzzle carver\<close>

text \<open>
  \<^verbatim>\<open>removeSymmetricCells\<close>. \<^verbatim>\<open>clues\<close> is a JavaScript number, an integer here, so that
  \<^verbatim>\<open>cellsToRemove = 81 - clues\<close> may be negative. The loop over the shuffled positions takes the
  puzzle and \<^verbatim>\<open>removed\<close>; its first test is the \<^verbatim>\<open>break\<close>.
\<close>

fun removeSymmetric_loop :: "int \<Rightarrow> (nat \<times> nat) list \<Rightarrow> grid \<Rightarrow> nat \<Rightarrow> grid" where
  "removeSymmetric_loop cellsToRemove [] puzzle removed = puzzle"
| "removeSymmetric_loop cellsToRemove ((row, col) # rest) puzzle removed =
     (if int removed \<ge> cellsToRemove then puzzle
      else
        (let symRow = SUDOKU_SIZE - 1 - row;
             symCol = SUDOKU_SIZE - 1 - col
         in if cell puzzle row col \<noteq> Some EMPTY_CELL \<and> cell puzzle symRow symCol \<noteq> Some EMPTY_CELL
            then
              (let backup1 = puzzle ! row ! col;
                   backup2 = puzzle ! symRow ! symCol;
                   puzzle' = set_cell (set_cell puzzle row col EMPTY_CELL) symRow symCol EMPTY_CELL
               in if hasUniqueSolution puzzle'
                  then removeSymmetric_loop cellsToRemove rest puzzle' (removed + 2)
                  else removeSymmetric_loop cellsToRemove rest
                         (set_cell (set_cell puzzle' row col backup1) symRow symCol backup2) removed)
            else removeSymmetric_loop cellsToRemove rest puzzle removed))"

definition removeSymmetricCells :: "grid \<Rightarrow> int \<Rightarrow> rng \<Rightarrow> grid \<times> rng" where
  "removeSymmetricCells g clues rng =
     (let puzzle = deepCopyGrid g;
          totalCells = SUDOKU_SIZE * SUDOKU_SIZE;
          cellsToRemove = int totalCells - clues;
          positions' = filter (\<lambda>(row, col). row \<noteq> 4 \<or> col \<noteq> 4) positions
      in case shuffleArray positions' rng of (shuffledPositions, rng') \<Rightarrow>
           (removeSymmetric_loop cellsToRemove shuffledPositions puzzle 0, rng'))"

text \<open>
  \<^verbatim>\<open>removeCells\<close>. The loop takes the puzzle, \<^verbatim>\<open>removed\<close> and \<^verbatim>\<open>attempts\<close> and returns the puzzle
  and \<^verbatim>\<open>removed\<close>; \<^verbatim>\<open>maxAttempts\<close> is \<open>2 * 81\<close>. When the loop has removed too few cells the
  result is that of \<^verbatim>\<open>removeSymmetricCells\<close> on the original grid.
\<close>

fun removeCells_loop ::
  "int \<Rightarrow> nat \<Rightarrow> (nat \<times> nat) list \<Rightarrow> grid \<Rightarrow> nat \<Rightarrow> nat \<Rightarrow> grid \<times> nat" where
  "removeCells_loop cellsToRemove maxAttempts [] puzzle removed attempts = (puzzle, removed)"
| "removeCells_loop cellsToRemove maxAttempts ((row, col) # rest) puzzle removed attempts =
     (if int removed \<ge> cellsToRemove \<or> attempts \<ge> maxAttempts then (puzzle, removed)
      else
        (if cell puzzle row col \<noteq> Some EMPTY_CELL then
           (let backup = puzzle ! row ! col;
                puzzle' = set_cell puzzle row col EMPTY_CELL
            in if hasUniqueSolution puzzle' then
                 (let currentClues = int (SUDOKU_SIZE * SUDOKU_SIZE) - int removed - 1
                  in if currentClues \<ge> 32 \<or> isSolvableWithoutGuessing puzzle'
                     then removeCells_loop cellsToRemove maxAttempts rest puzzle' (removed + 1)
                            (attempts + 1)
                     else removeCells_loop cellsToRemove maxAttempts rest
                            (set_cell puzzle' row col backup) removed (attempts + 1))
               else removeCells_loop cellsToRemove maxAttempts rest
                      (set_cell puzzle' row col backup) removed (attempts + 1))
         else removeCells_loop cellsToRemove maxAttempts rest puzzle removed (attempts + 1)))"

definition removeCells :: "grid \<Rightarrow> int \<Rightarrow> rng \<Rightarrow> grid \<times> rng" where
  "removeCells g clues rng =
     (let puzzle = deepCopyGrid g;
          totalCells = SUDOKU_SIZE * SUDOKU_SIZE;
          cellsToRemove = int totalCells - clues;
          maxAttempts = totalCells * 2
      in case shuffleArray positions rng of (shuffledPositions, rng') \<Rightarrow>
           (case removeCells_loop cellsToRemove maxAttempts shuffledPositions puzzle 0 0 of
              (puzzle', removed) \<Rightarrow>
                if int removed < cellsToRemove then removeSymmetricCells g clues rng'
                else (puzzle', rng')))"

section \<open>Generation orchestrator\<close>

text \<open>
  \<^verbatim>\<open>DIFFICULTY_CONFIGS\<close> of \<^verbatim>\<open>gameConstants\<close>. A lookup with a name that is not a key is
  \<^verbatim>\<open>undefined\<close>, here \<open>None\<close> (the names that JavaScript objects inherit from
  \<^verbatim>\<open>Object.prototype\<close> are outside the model).
\<close>

record DifficultyConfig =
  config_name :: string
  config_label :: string
  config_clues :: int
  config_maxHints :: nat
  config_description :: string

definition DIFFICULTY_CONFIGS :: "string \<rightharpoonup> DifficultyConfig" where
  "DIFFICULTY_CONFIGS =
     [''easy'' \<mapsto> \<lparr>config_name = ''easy'', config_label = ''Easy'', config_clues = 45,
                    config_maxHints = 5, config_description = ''Perfect for beginners''\<rparr>,
      ''medium'' \<mapsto> \<lparr>config_name = ''medium'', config_label = ''Medium'', config_clues = 35,
                    config_maxHints = 3, config_description = ''Moderate challenge''\<rparr>,
      ''hard'' \<mapsto> \<lparr>config_name = ''hard'', config_label = ''Hard'', config_clues = 28,
                    config_maxHints = 2, config_description = ''For experienced players''\<rparr>,
      ''expert'' \<mapsto> \<lparr>config_name = ''expert'', config_label = ''Expert'', config_clues = 22,
                    config_maxHints = 1, config_description = ''Ultimate challenge''\<rparr>]"

text \<open>
  \<^verbatim>\<open>generatePuzzle\<close>. The error thrown inside an attempt is caught by the attempt's
  \<^verbatim>\<open>catch\<close>, which stores it in \<^verbatim>\<open>lastError\<close> and logs one warning (the attempt number and
  the error); the list of these warnings is part of the result. After the loop the terminal
  error carries the difficulty, \<^verbatim>\<open>maxRetries\<close> and the last error (\<open>None\<close> is the source's
  \<^verbatim>\<open>'Unknown error'\<close>). The test \<^verbatim>\<open>!puzzle || !solution\<close> is never true of an array, so the
  second \<^verbatim>\<open>throw\<close> has no branch here.
\<close>

datatype attempt_error = InvalidDifficultyLevel string

datatype generation_failure = FailedToGenerate string nat "attempt_error option"

type_synonym generation_result =
  "(generation_failure + (grid \<times> grid)) \<times> (nat \<times> attempt_error) list"

function generatePuzzle_loop ::
  "string \<Rightarrow> nat \<Rightarrow> nat \<Rightarrow> attempt_error option \<Rightarrow> (nat \<times> attempt_error) list \<Rightarrow> rng
   \<Rightarrow> generation_result" where
  "generatePuzzle_loop difficulty maxRetries attempt lastError warnings rng =
     (if attempt \<le> maxRetries then
        (case generateCompleteSudoku rng of (solution, rng') \<Rightarrow>
           (case DIFFICULTY_CONFIGS difficulty of
              None \<Rightarrow>
                generatePuzzle_loop difficulty maxRetries (attempt + 1)
                  (Some (InvalidDifficultyLevel difficulty))
                  (warnings @ [(attempt, InvalidDifficultyLevel difficulty)]) rng'
            | Some config \<Rightarrow>
                (case removeCells solution (config_clues config) rng' of (puzzle, rng'') \<Rightarrow>
                   (Inr (deepCopyGrid puzzle, deepCopyGrid solution), warnings))))
      else (Inl (FailedToGenerate difficulty maxRetries lastError), warnings))"
  by pat_completeness auto
termination
  by (relation "measure (\<lambda>(difficulty, maxRetries, attempt, lastError, warnings, rng).
                  Suc maxRetries - attempt)") auto

declare generatePuzzle_loop.simps [simp del]

definition generatePuzzle :: "string \<Rightarrow> nat \<Rightarrow> rng \<Rightarrow> generation_result" where
  "generatePuzzle difficulty maxRetries rng = generatePuzzle_loop difficulty maxRetries 1 None [] rng"

section \<open>Facts about the carver and the orchestrator\<close>

lemma deepCopyGrid_id: "deepCopyGrid g = g"
  by (simp add: deepCopyGrid_def)

lemma nth_set_cell_any:
  assumes "wf_grid g" "r' < 9" "c' < 9"
  shows "set_cell g r c v ! r' ! c' = (if r' = r \<and> c' = c then v else g ! r' ! c')"
proof (cases "r < 9 \<and> c < 9")
  case True
  then show ?thesis using assms(1) by (simp add: nth_set_cell)
next
  case False
  have "set_cell g r c v = g"
  proof (cases "r < 9")
    case True
    with False have "length (g ! r) \<le> c" using assms(1) by (simp add: wf_gridD)
    then show ?thesis by (simp add: set_cell_def list_update_beyond)
  next
    case False
    then show ?thesis using assms(1) by (simp add: set_cell_def wf_gridD list_update_beyond)
  qed
  then show ?thesis using False assms(2,3) by auto
qed

lemma set_cell_commute:
  assumes "(r, c) \<noteq> (r', c')"
  shows "set_cell (set_cell g r c u) r' c' v = set_cell (set_cell g r' c' v) r c u"
proof (cases "r = r'")
  case True
  with assms have c: "c \<noteq> c'" by simp
  show ?thesis
  proof (cases "r < length g")
    case True
    then show ?thesis using \<open>r = r'\<close> c by (simp add: set_cell_def list_update_swap)
  next
    case False
    then show ?thesis using \<open>r = r'\<close> by (simp add: set_cell_def list_update_beyond)
  qed
next
  case False
  then show ?thesis by (simp add: set_cell_def list_update_swap)
qed

lemma set_cell_restore: "set_cell (set_cell g r c u) r c (g ! r ! c) = g"
  by (simp add: set_cell_twice set_cell_same)

lemma set_cell_restore_pair:
  "set_cell (set_cell (set_cell (set_cell g r c u) r' c' u') r c (g ! r ! c)) r' c' (g ! r' ! c') = g"
proof (cases "(r, c) = (r', c')")
  case True
  then show ?thesis by (simp add: set_cell_twice set_cell_same)
next
  case False
  have "set_cell (set_cell (set_cell g r c u) r' c' u') r c (g ! r ! c)
        = set_cell (set_cell (set_cell g r' c' u') r c u) r c (g ! r ! c)"
    by (simp only: set_cell_commute [OF False])
  also have "\<dots> = set_cell (set_cell g r' c' u') r c (g ! r ! c)"
    by (simp only: set_cell_twice)
  also have "\<dots> = set_cell (set_cell g r c (g ! r ! c)) r' c' u'"
    by (rule set_cell_commute [symmetric, OF False])
  also have "\<dots> = set_cell g r' c' u'" by (simp only: set_cell_same)
  finally show ?thesis by (simp only: set_cell_twice set_cell_same)
qed

text \<open>The number of cells that hold a nonzero value.\<close>

definition clueCount :: "grid \<Rightarrow> nat" where
  "clueCount g =
     length (filter (\<lambda>(row, col). case cell g row col of None \<Rightarrow> False | Some v \<Rightarrow> v \<noteq> EMPTY_CELL)
       positions)"

lemma length_positions: "length positions = 81"
  by (simp add: positions_def)

lemma clueCount_wf:
  assumes "wf_grid g"
  shows "clueCount g + length (findEmptyCells g) = 81"
proof -
  have "filter (\<lambda>(row, col). case cell g row col of None \<Rightarrow> False | Some v \<Rightarrow> v \<noteq> 0) positions
        = filter (\<lambda>p. \<not> (case p of (row, col) \<Rightarrow> cell g row col = Some 0)) positions"
    by (rule filter_cong) (auto simp: set_positions cell_wf [OF assms])
  then have "clueCount g = length (filter (\<lambda>p. \<not> (case p of (row, col) \<Rightarrow> cell g row col = Some 0)) positions)"
    by (simp add: clueCount_def)
  then show ?thesis
    unfolding findEmptyCells_def
    using sum_length_filter_compl [of "\<lambda>p. case p of (row, col) \<Rightarrow> cell g row col = Some 0" positions]
    by (simp add: length_positions)
qed

lemma countSolutions_complete:
  assumes "findEmptyCells g = []"
  shows "countSolutions g 2 = 1"
proof -
  have "\<forall>p\<in>set positions. \<not> (case p of (r, c) \<Rightarrow> cell g r c = Some 0)"
    using assms by (simp add: findEmptyCells_def filter_empty_conv)
  then have "find (\<lambda>(r, c). cell g r c = Some 0) positions = None"
    by (auto simp: find_None_iff)
  then show ?thesis by (simp add: countSolutions_def deepCopyGrid_id)
qed

text \<open>What the carver keeps true of the puzzle it works on.\<close>

definition carve_ok :: "grid \<Rightarrow> bool" where
  "carve_ok p = (wf_grid p \<and> countSolutions p 2 = 1 \<and> 17 \<le> clueCount p)"

lemma filledCells_clueCount: "wf_grid g \<Longrightarrow> 81 - length (findEmptyCells g) = clueCount g"
  using clueCount_wf [of g] by arith

lemma carve_ok_unique: "wf_grid p \<Longrightarrow> hasUniqueSolution p \<Longrightarrow> carve_ok p"
  by (auto simp: carve_ok_def hasUniqueSolution_def Let_def filledCells_clueCount split: if_splits)

lemma carve_ok_complete:
  assumes "wf_grid g" "findEmptyCells g = []"
  shows "carve_ok g"
proof -
  have "clueCount g = 81" using clueCount_wf [OF assms(1)] assms(2) by simp
  then show ?thesis using assms by (simp add: carve_ok_def countSolutions_complete)
qed

lemma removeSymmetric_loop_invariant:
  assumes step: "\<And>p r c r' c'. P p \<Longrightarrow>
      hasUniqueSolution (set_cell (set_cell p r c 0) r' c' 0) \<Longrightarrow>
      P (set_cell (set_cell p r c 0) r' c' 0)"
  shows "P puzzle \<Longrightarrow> P (removeSymmetric_loop cellsToRemove ps puzzle removed)"
proof (induction cellsToRemove ps puzzle removed rule: removeSymmetric_loop.induct)
  case (1 cellsToRemove puzzle removed)
  then show ?case by simp
next
  case (2 cellsToRemove row col rest puzzle removed)
  let ?p' = "set_cell (set_cell puzzle row col 0) (8 - row) (8 - col) 0"
  let ?restored = "set_cell (set_cell ?p' row col (puzzle ! row ! col)) (8 - row) (8 - col)
                   (puzzle ! (8 - row) ! (8 - col))"
  have restore: "?restored = puzzle"
    by (rule set_cell_restore_pair)
  show ?case
  proof (cases "int removed \<ge> cellsToRemove")
    case True
    then show ?thesis using "2.prems" by simp
  next
    case stop: False
    show ?thesis
    proof (cases "cell puzzle row col \<noteq> Some 0 \<and> cell puzzle (8 - row) (8 - col) \<noteq> Some 0")
      case False
      have "P (removeSymmetric_loop cellsToRemove rest puzzle removed)"
        using "2.IH"(3) stop False "2.prems" by simp
      then show ?thesis using stop False
        by (simp add: Let_def del: de_Morgan_conj)
    next
      case True
      show ?thesis
      proof (cases "hasUniqueSolution ?p'")
        case uniq: True
        have "P ?p'" using "2.prems" uniq by (rule step)
        then have "P (removeSymmetric_loop cellsToRemove rest ?p' (removed + 2))"
          using "2.IH"(1) stop True uniq by simp
        then show ?thesis using stop True uniq by (simp add: Let_def)
      next
        case nuniq: False
        have "P (removeSymmetric_loop cellsToRemove rest ?restored removed)"
          using "2.IH"(2) stop True nuniq "2.prems" by (simp add: restore)
        then show ?thesis using stop True nuniq by (simp add: Let_def)
      qed
    qed
  qed
qed

lemma removeCells_loop_invariant:
  assumes step: "\<And>p r c. P p \<Longrightarrow> hasUniqueSolution (set_cell p r c 0) \<Longrightarrow> P (set_cell p r c 0)"
  shows "P puzzle \<Longrightarrow>
   P (fst (removeCells_loop cellsToRemove maxAttempts ps puzzle removed attempts))"
proof (induction cellsToRemove maxAttempts ps puzzle removed attempts rule: removeCells_loop.induct)
  case (1 cellsToRemove maxAttempts puzzle removed attempts)
  then show ?case by simp
next
  case (2 cellsToRemove maxAttempts row col rest puzzle removed attempts)
  let ?p' = "set_cell puzzle row col 0"
  let ?restored = "set_cell ?p' row col (puzzle ! row ! col)"
  have restore: "?restored = puzzle" by (rule set_cell_restore)
  show ?case
  proof (cases "int removed \<ge> cellsToRemove \<or> attempts \<ge> maxAttempts")
    case True
    then show ?thesis using "2.prems" by auto
  next
    case go: False
    show ?thesis
    proof (cases "cell puzzle row col \<noteq> Some 0")
      case False
      have "P (fst (removeCells_loop cellsToRemove maxAttempts rest puzzle removed (attempts + 1)))"
        using "2.IH"(4) go False "2.prems" by simp
      then show ?thesis using go False by simp
    next
      case True
      show ?thesis
      proof (cases "hasUniqueSolution ?p'")
        case nuniq: False
        have "P (fst (removeCells_loop cellsToRemove maxAttempts rest ?restored removed (attempts + 1)))"
          using "2.IH"(3) go True nuniq "2.prems" by (simp add: restore)
        then show ?thesis using go True nuniq by (simp add: Let_def)
      next
        case uniq: True
        have ok': "P ?p'" using "2.prems" uniq by (rule step)
        show ?thesis
        proof (cases "int 81 - int removed - 1 \<ge> 32 \<or> isSolvableWithoutGuessing ?p'")
          case True
          have "P (fst (removeCells_loop cellsToRemove maxAttempts rest ?p' (removed + 1) (attempts + 1)))"
            using "2.IH"(1) go \<open>cell puzzle row col \<noteq> Some 0\<close> uniq True ok' by simp
          then show ?thesis using go \<open>cell puzzle row col \<noteq> Some 0\<close> uniq True
            by (simp add: Let_def)
        next
          case False
          have "P (fst (removeCells_loop cellsToRemove maxAttempts rest ?restored removed (attempts + 1)))"
            using "2.IH"(2) go \<open>cell puzzle row col \<noteq> Some 0\<close> uniq False "2.prems"
            by (simp add: restore)
          then show ?thesis using go \<open>cell puzzle row col \<noteq> Some 0\<close> uniq False
            by (simp add: Let_def)
        qed
      qed
    qed
  qed
qed

lemma removeSymmetricCells_invariant:
  assumes "\<And>p r c r' c'. P p \<Longrightarrow>
      hasUniqueSolution (set_cell (set_cell p r c 0) r' c' 0) \<Longrightarrow>
      P (set_cell (set_cell p r c 0) r' c' 0)"
    and "P g"
  shows "P (fst (removeSymmetricCells g clues rng))"
  using removeSymmetric_loop_invariant [of P, OF assms]
  by (simp add: removeSymmetricCells_def deepCopyGrid_id Let_def split: prod.split)

lemma removeCells_invariant:
  assumes step: "\<And>p r c. P p \<Longrightarrow> hasUniqueSolution (set_cell p r c 0) \<Longrightarrow> P (set_cell p r c 0)"
    and step2: "\<And>p r c r' c'. P p \<Longrightarrow>
      hasUniqueSolution (set_cell (set_cell p r c 0) r' c' 0) \<Longrightarrow>
      P (set_cell (set_cell p r c 0) r' c' 0)"
    and "P g"
  shows "P (fst (removeCells g clues rng))"
proof -
  obtain shuffled rng1 where sh: "shuffleArray positions rng = (shuffled, rng1)"
    by (metis surj_pair)
  obtain p1 removed where loop: "removeCells_loop (81 - clues) 162 shuffled g 0 0 = (p1, removed)"
    by (metis surj_pair)
  have "P p1" using removeCells_loop_invariant [of P g "81 - clues" 162 shuffled 0 0, OF step assms(3)] loop
    by simp
  moreover have "P (fst (removeSymmetricCells g clues rng1))"
    using step2 assms(3) by (rule removeSymmetricCells_invariant)
  ultimately show ?thesis
    by (simp add: removeCells_def deepCopyGrid_id Let_def sh loop)
qed

lemma carve_ok_step:
  "carve_ok p \<Longrightarrow> hasUniqueSolution (set_cell p r c 0) \<Longrightarrow> carve_ok (set_cell p r c 0)"
  by (rule carve_ok_unique) (simp_all add: carve_ok_def wf_set_cell)

lemma carve_ok_step2:
  "carve_ok p \<Longrightarrow> hasUniqueSolution (set_cell (set_cell p r c 0) r' c' 0) \<Longrightarrow>
   carve_ok (set_cell (set_cell p r c 0) r' c' 0)"
  by (rule carve_ok_unique) (simp_all add: carve_ok_def wf_set_cell)

text \<open>A puzzle agrees with a grid when each of its cells is empty or holds the grid's value.\<close>

definition agrees :: "grid \<Rightarrow> grid \<Rightarrow> bool" where
  "agrees puzzle solution =
     (wf_grid puzzle \<and>
      list_all (\<lambda>(r, c). puzzle ! r ! c = EMPTY_CELL \<or> puzzle ! r ! c = solution ! r ! c) positions)"

lemma agrees_iff:
  "agrees p s \<longleftrightarrow> wf_grid p \<and> (\<forall>r<9. \<forall>c<9. p ! r ! c = 0 \<or> p ! r ! c = s ! r ! c)"
  by (auto simp: agrees_def list_all_iff set_positions)

lemma agrees_refl: "wf_grid g \<Longrightarrow> agrees g g"
  by (simp add: agrees_iff)

lemma agrees_step: "agrees p s \<Longrightarrow> agrees (set_cell p r c 0) s"
  by (auto simp: agrees_iff wf_set_cell nth_set_cell_any)

lemma agrees_step2: "agrees p s \<Longrightarrow> agrees (set_cell (set_cell p r c 0) r' c' 0) s"
  by (intro agrees_step)

lemma wf_createEmptyBoard: "wf_grid createEmptyBoard"
  by code_simp

lemma wf_foldl_set_cell:
  "wf_grid g \<Longrightarrow> wf_grid (foldl (\<lambda>g' (index, (r, c)). set_cell g' r c (f index)) g ps)"
  by (induction ps arbitrary: g) (auto simp: wf_set_cell)

lemma wf_fillBox: "wf_grid g \<Longrightarrow> wf_grid (fst (fillBox g row col rng))"
  by (simp add: fillBox_def wf_foldl_set_cell split: prod.split)

lemma wf_fillDiagonalBoxes: "wf_grid g \<Longrightarrow> wf_grid (fst (fillDiagonalBoxes g rng))"
proof -
  have "wf_grid (fst (foldl (\<lambda>(g', rng') box. fillBox g' box box rng') (g, rng) boxes))"
    if "wf_grid g" for boxes g rng
    using that
  proof (induction boxes arbitrary: g rng)
    case Nil
    then show ?case by simp
  next
    case (Cons b boxes)
    obtain g1 rng1 where fb: "fillBox g b b rng = (g1, rng1)" by (metis surj_pair)
    with wf_fillBox [OF Cons.prems, of b b rng] have "wf_grid g1" by simp
    from Cons.IH [OF this] show ?case by (simp add: fb)
  qed
  then show "wf_grid g \<Longrightarrow> wf_grid (fst (fillDiagonalBoxes g rng))"
    unfolding fillDiagonalBoxes_def by blast
qed

lemma wf_solveSudoku_aux:
  "wf_grid g \<longrightarrow> wf_grid (fst (snd (solveSudoku g depth rng)))"
  "wf_grid g \<longrightarrow> wf_grid (fst (snd (tryNumbers g row col nums depth rng)))"
proof (induction g depth rng and g row col nums depth rng rule: solveSudoku_tryNumbers.induct)
  case (1 g depth rng)
  show ?case
  proof
    assume wf: "wf_grid g"
    show "wf_grid (fst (snd (solveSudoku g depth rng)))"
    proof (cases "depth > 1000")
      case True
      then show ?thesis using wf by simp
    next
      case False
      show ?thesis
      proof (cases "find (\<lambda>(row, col). cell g row col = Some 0) positions")
        case None
        then show ?thesis using False wf by simp
      next
        case (Some p)
        obtain row col where p: "p = (row, col)" by (cases p)
        obtain numbers rng1 where sh: "shuffleArray [1::nat, 2, 3, 4, 5, 6, 7, 8, 9] rng = (numbers, rng1)"
          by (metis surj_pair)
        from "1.IH" [OF False Some [unfolded p] refl sh [symmetric]] wf
        show ?thesis using False Some p sh by simp
      qed
    qed
  qed
next
  case (2 g row col depth rng)
  show ?case by simp
next
  case (3 g row col num rest depth rng)
  show ?case
  proof
    assume wf: "wf_grid g"
    show "wf_grid (fst (snd (tryNumbers g row col (num # rest) depth rng)))"
    proof (cases "isSafe g row col num")
      case False
      with "3.IH"(3) [OF False] wf show ?thesis by simp
    next
      case True
      obtain solved g1 rng1 where rec: "solveSudoku (set_cell g row col num) (depth + 1) rng = (solved, g1, rng1)"
        by (metis surj_pair)
      have wf1: "wf_grid g1" using "3.IH"(1) [OF True] wf rec by (simp add: wf_set_cell)
      show ?thesis
      proof (cases solved)
        case True
        with \<open>isSafe g row col num\<close> rec wf1 show ?thesis by simp
      next
        case False
        from "3.IH"(2) [OF True rec [symmetric] refl False] wf1
        have "wf_grid (fst (snd (tryNumbers (set_cell g1 row col 0) row col rest depth rng1)))"
          by (simp add: wf_set_cell)
        with True rec False show ?thesis by simp
      qed
    qed
  qed
qed

lemma wf_generateCompleteSudoku: "wf_grid (fst (generateCompleteSudoku rng))"
proof -
  obtain g1 rng1 where fd: "fillDiagonalBoxes createEmptyBoard rng = (g1, rng1)" by (metis surj_pair)
  with wf_fillDiagonalBoxes [OF wf_createEmptyBoard, of rng] have "wf_grid g1" by simp
  obtain solved g2 rng2 where rec: "solveSudoku g1 0 rng1 = (solved, g2, rng2)" by (metis surj_pair)
  with wf_solveSudoku_aux(1) [of g1 0 rng1] \<open>wf_grid g1\<close> have "wf_grid g2" by simp
  then show ?thesis
    by (simp add: generateCompleteSudoku_def fd rec del: solveSudoku.simps)
qed


lemma generatePuzzle_loop_success:
  assumes "generatePuzzle_loop difficulty maxRetries attempt lastError warnings rng = (Inr (puzzle, solution), warnings')"
  shows "wf_grid solution \<and> agrees puzzle solution"
  using assms
proof (induction difficulty maxRetries attempt lastError warnings rng rule: generatePuzzle_loop.induct)
  case (1 difficulty maxRetries attempt lastError warnings rng)
  obtain s rng1 where gen: "generateCompleteSudoku rng = (s, rng1)" by (metis surj_pair)
  have wfs: "wf_grid s" using wf_generateCompleteSudoku [of rng] gen by simp
  from "1.prems" have le: "attempt \<le> maxRetries"
    by (auto simp: generatePuzzle_loop.simps [of difficulty maxRetries attempt] split: if_splits)
  show ?case
  proof (cases "DIFFICULTY_CONFIGS difficulty")
    case None
    with "1.prems" le gen
    have "generatePuzzle_loop difficulty maxRetries (attempt + 1) (Some (InvalidDifficultyLevel difficulty))
            (warnings @ [(attempt, InvalidDifficultyLevel difficulty)]) rng1 = (Inr (puzzle, solution), warnings')"
      by (simp add: generatePuzzle_loop.simps [of difficulty maxRetries attempt])
    from "1.IH" [OF le gen [symmetric] None this] show ?thesis .
  next
    case (Some config)
    obtain p rng2 where rc: "removeCells s (config_clues config) rng1 = (p, rng2)" by (metis surj_pair)
    have "agrees (fst (removeCells s (config_clues config) rng1)) s"
      using agrees_step agrees_step2 agrees_refl [OF wfs]
      by (rule removeCells_invariant [where P = "\<lambda>p. agrees p s"])
    then have "agrees p s" by (simp add: rc)
    moreover from "1.prems" le gen Some rc have "puzzle = p" "solution = s"
      by (simp_all add: generatePuzzle_loop.simps [of difficulty maxRetries attempt] deepCopyGrid_id)
    ultimately show ?thesis using wfs by simp
  qed
qed


lemma generatePuzzle_loop_configured:
  assumes "DIFFICULTY_CONFIGS difficulty = Some config" and "attempt \<le> maxRetries"
  shows "generatePuzzle_loop difficulty maxRetries attempt lastError warnings rng =
         (Inr (fst (removeCells (fst (generateCompleteSudoku rng)) (config_clues config)
                      (snd (generateCompleteSudoku rng))),
               fst (generateCompleteSudoku rng)), warnings)"
  using assms
  by (simp add: generatePuzzle_loop.simps [of difficulty maxRetries attempt] deepCopyGrid_id
      split: prod.split)

section \<open>Example grids\<close>

text \<open>
  A solved board (the one the generator produces when every random draw is 0), the same
  board with 5 written at (0,0) and (0,3), and the board with three cells cleared.
\<close>

definition zero_seed_solution :: grid where
  "zero_seed_solution =
    [[2, 3, 4, 6, 5, 8, 7, 1, 9],
     [5, 6, 7, 3, 1, 9, 4, 2, 8],
     [8, 9, 1, 4, 7, 2, 3, 5, 6],
     [6, 7, 9, 2, 3, 4, 1, 8, 5],
     [1, 2, 8, 5, 6, 7, 9, 4, 3],
     [3, 4, 5, 8, 9, 1, 6, 7, 2],
     [7, 1, 6, 9, 8, 5, 2, 3, 4],
     [9, 8, 2, 1, 4, 3, 5, 6, 7],
     [4, 5, 3, 7, 2, 6, 8, 9, 1]]"

definition conflict_example :: grid where
  "conflict_example = set_cell (set_cell zero_seed_solution 0 0 5) 0 3 5"

definition hint_example :: grid where
  "hint_example = set_cell (set_cell (set_cell zero_seed_solution 0 1 0) 4 4 0) 4 5 0"

text \<open>
  A board on which the search fails after a placement: (0,0) and (0,1) are cleared and a
  second 3 stands in column 1, so that 2 fits at (0,0) and then nothing fits at (0,1).
\<close>

definition stuck_example :: grid where
  "stuck_example = set_cell (set_cell (set_cell zero_seed_solution 0 0 0) 0 1 0) 8 1 3"

lemma wf_zero_seed_solution: "wf_grid zero_seed_solution"
  by code_simp

lemma wf_conflict_example: "wf_grid conflict_example"
  by code_simp

lemma conflict_example_fives: "conflict_example ! 0 ! 0 = 5 \<and> conflict_example ! 0 ! 3 = 5"
  by code_simp

lemma getHint_hint_example:
  "getHint hint_example zero_seed_solution = Some \<lparr>hint_row = 0, hint_col = 1, hint_value = Some 3\<rparr>"
  by code_simp

lemma getHint_solved: "getHint zero_seed_solution zero_seed_solution = None"
  by code_simp

lemma hint_example_empty: "cell hint_example 0 1 = Some 0" "cell hint_example 4 4 = Some 0"
  by code_simp+

section \<open>Claims about validation and hints\<close>

text \<open>
  C5. For every 9x9 grid, \<^verbatim>\<open>validateBoard\<close> returns as conflicts exactly the filled positions
  whose value also occurs in another cell of the same row, column or 3x3 box (each cell of a
  conflicting pair on its own), and \<^verbatim>\<open>isValid\<close> is true iff that set is empty. In particular,
  when row 0 holds 5 at column 0 and at column 3, the result is not valid and the conflicts
  contain (0,0) and (0,3).
\<close>

theorem validateBoard_conflicts:
  assumes "wf_grid g"
  shows "conflicts (validateBoard g) =
           {(r, c). r < 9 \<and> c < 9 \<and> g ! r ! c \<noteq> EMPTY_CELL \<and>
              (\<exists>r'<9. \<exists>c'<9. (r', c') \<noteq> (r, c) \<and> same_unit (r, c) (r', c') \<and>
                 g ! r' ! c' = g ! r ! c)}
         \<and> (isValid (validateBoard g) \<longleftrightarrow> conflicts (validateBoard g) = {})
         \<and> (g ! 0 ! 0 = 5 \<and> g ! 0 ! 3 = 5 \<longrightarrow>
              \<not> isValid (validateBoard g) \<and> (0, 0) \<in> conflicts (validateBoard g)
              \<and> (0, 3) \<in> conflicts (validateBoard g))"
proof -
  have confl: "conflicts (validateBoard g) = {p \<in> set positions. has_conflict g p}"
    and valid: "isValid (validateBoard g) \<longleftrightarrow> (\<forall>p\<in>set positions. \<not> has_conflict g p)"
    by (simp_all add: validateBoard_def validateBoard_run_wf [OF assms])
  have c1: "conflicts (validateBoard g) =
           {(r, c). r < 9 \<and> c < 9 \<and> g ! r ! c \<noteq> EMPTY_CELL \<and>
              (\<exists>r'<9. \<exists>c'<9. (r', c') \<noteq> (r, c) \<and> same_unit (r, c) (r', c') \<and>
                 g ! r' ! c' = g ! r ! c)}"
    unfolding confl set_positions using has_conflict_wf [OF assms] by auto
  have c2: "isValid (validateBoard g) \<longleftrightarrow> conflicts (validateBoard g) = {}"
    unfolding confl valid by auto
  have c3: "\<not> isValid (validateBoard g) \<and> (0, 0) \<in> conflicts (validateBoard g)
              \<and> (0, 3) \<in> conflicts (validateBoard g)" if "g ! 0 ! 0 = 5 \<and> g ! 0 ! 3 = 5"
  proof -
    have "0 < (9::nat) \<and> 3 < (9::nat) \<and> ((0::nat), (3::nat)) \<noteq> (0, 0) \<and> same_unit (0, 0) (0, 3) \<and>
            g ! 0 ! 3 = g ! 0 ! 0"
      using that by (simp add: same_unit_def)
    then have "\<exists>r'<9. \<exists>c'<9. (r', c') \<noteq> (0, 0) \<and> same_unit (0, 0) (r', c') \<and> g ! r' ! c' = g ! 0 ! 0"
      by blast
    then have "has_conflict g (0, 0)"
      using that by (simp add: has_conflict_wf [OF assms])
    moreover have "0 < (9::nat) \<and> 0 < (9::nat) \<and> ((0::nat), (0::nat)) \<noteq> (0, 3) \<and> same_unit (0, 3) (0, 0) \<and>
            g ! 0 ! 0 = g ! 0 ! 3"
      using that by (simp add: same_unit_def)
    then have "\<exists>r'<9. \<exists>c'<9. (r', c') \<noteq> (0, 3) \<and> same_unit (0, 3) (r', c') \<and> g ! r' ! c' = g ! 0 ! 3"
      by blast
    then have "has_conflict g (0, 3)"
      using that by (simp add: has_conflict_wf [OF assms])
    ultimately have "(0, 0) \<in> conflicts (validateBoard g)" "(0, 3) \<in> conflicts (validateBoard g)"
      unfolding confl set_positions by simp_all
    then show ?thesis using c2 by auto
  qed
  show ?thesis using c1 c2 c3 by blast
qed

theorem validateBoard_conflicts_witness:
  "\<not> isValid (validateBoard conflict_example) \<and> (0, 0) \<in> conflicts (validateBoard conflict_example)
   \<and> (0, 3) \<in> conflicts (validateBoard conflict_example)"
  using validateBoard_conflicts [OF wf_conflict_example] conflict_example_fives by blast

text \<open>
  C7. \<^verbatim>\<open>getHint\<close> returns nothing iff the grid has no empty cell; a hint it returns is at an
  empty cell of the grid, and its value is the read \<^verbatim>\<open>solution[row][col]\<close> at that position.
\<close>

theorem getHint_none_iff_no_empty:
  "(getHint g s = None \<longleftrightarrow> \<not> (\<exists>r<9. \<exists>c<9. cell g r c = Some EMPTY_CELL)) \<and>
   (\<forall>h. getHint g s = Some h \<longrightarrow>
      hint_row h < 9 \<and> hint_col h < 9 \<and>
      cell g (hint_row h) (hint_col h) = Some EMPTY_CELL \<and>
      hint_value h = cell s (hint_row h) (hint_col h) \<and>
      (wf_grid s \<longrightarrow> hint_value h = Some (s ! hint_row h ! hint_col h)))"
proof (intro conjI allI impI)
  have "findEmptyCells g = [] \<longleftrightarrow> set (findEmptyCells g) = {}" by simp
  also have "\<dots> \<longleftrightarrow> \<not> (\<exists>r<9. \<exists>c<9. cell g r c = Some 0)"
    unfolding set_findEmptyCells by auto
  finally show "getHint g s = None \<longleftrightarrow> \<not> (\<exists>r<9. \<exists>c<9. cell g r c = Some EMPTY_CELL)"
    by (simp add: getHint_unfold)
next
  fix h assume h: "getHint g s = Some h"
  let ?p = "hd (sort_key (possibilities g) (findEmptyCells g))"
  from h have ne: "findEmptyCells g \<noteq> []" by (auto simp: getHint_unfold split: if_splits)
  from h ne have hp: "hint_row h = fst ?p" "hint_col h = snd ?p" "hint_value h = cell s (fst ?p) (snd ?p)"
    by (auto simp: getHint_unfold)
  have "?p \<in> set (findEmptyCells g)" by (rule hd_sort_key_mem [OF ne])
  then have mem: "fst ?p < 9 \<and> snd ?p < 9 \<and> cell g (fst ?p) (snd ?p) = Some 0"
    unfolding set_findEmptyCells by auto
  show "hint_row h < 9" "hint_col h < 9" "cell g (hint_row h) (hint_col h) = Some EMPTY_CELL"
    "hint_value h = cell s (hint_row h) (hint_col h)"
    using hp mem by simp_all
  assume "wf_grid s"
  then show "hint_value h = Some (s ! hint_row h ! hint_col h)"
    using hp mem by (auto simp: wf_grid_def cell_def list_all_iff)
qed

theorem getHint_none_iff_no_empty_witness:
  "getHint hint_example zero_seed_solution = Some \<lparr>hint_row = 0, hint_col = 1, hint_value = Some 3\<rparr>
   \<and> cell hint_example 0 1 = Some 0
   \<and> Some (3::nat) = Some (zero_seed_solution ! 0 ! 1)
   \<and> getHint zero_seed_solution zero_seed_solution = None
   \<and> \<not> (\<exists>r<9. \<exists>c<9. cell zero_seed_solution r c = Some 0)"
  using getHint_none_iff_no_empty [of hint_example zero_seed_solution]
    getHint_none_iff_no_empty [of zero_seed_solution zero_seed_solution]
    getHint_hint_example getHint_solved wf_zero_seed_solution
  by simp

text \<open>
  C8. When the grid has an empty cell, the hint is at the empty cell whose number of possible
  values (the values 1..9 that \<^verbatim>\<open>isSafe\<close> accepts there) is least among the empty cells, and
  among the empty cells with that least number it is the first in row-major order.
\<close>

theorem getHint_most_constrained_first:
  assumes "r0 < 9" and "c0 < 9" and "cell g r0 c0 = Some EMPTY_CELL"
  shows "\<exists>h. getHint g s = Some h \<and>
           cell g (hint_row h) (hint_col h) = Some EMPTY_CELL \<and>
           (\<forall>r<9. \<forall>c<9. cell g r c = Some EMPTY_CELL \<longrightarrow>
              possibilities g (hint_row h, hint_col h) \<le> possibilities g (r, c) \<and>
              (possibilities g (r, c) = possibilities g (hint_row h, hint_col h) \<longrightarrow>
                 row_major_index (hint_row h, hint_col h) \<le> row_major_index (r, c)))"
proof -
  let ?xs = "findEmptyCells g"
  let ?k = "possibilities g"
  let ?p = "hd (sort_key ?k ?xs)"
  have "(r0, c0) \<in> set ?xs" using assms unfolding set_findEmptyCells by simp
  then have ne: "?xs \<noteq> []" by auto
  from hd_sort_key_first_min [OF ne, of ?k] obtain ys zs where
    split: "?xs = ys @ ?p # zs"
    and before: "\<forall>y\<in>set ys. ?k ?p < ?k y"
    and after: "\<forall>z\<in>set zs. ?k ?p \<le> ?k z"
    by blast
  have "sorted_wrt (\<lambda>p q. row_major_index p < row_major_index q) (ys @ ?p # zs)"
    using sorted_findEmptyCells [of g] split by simp
  then have later: "\<forall>z\<in>set zs. row_major_index ?p < row_major_index z"
    by (simp add: sorted_wrt_append)
  have pmem: "?p \<in> set ?xs" by (rule hd_sort_key_mem [OF ne])
  then have pempty: "cell g (fst ?p) (snd ?p) = Some 0"
    unfolding set_findEmptyCells by auto
  have key: "?k ?p \<le> ?k q \<and> (?k q = ?k ?p \<longrightarrow> row_major_index ?p \<le> row_major_index q)"
    if "q \<in> set ?xs" for q
  proof -
    from that have "q \<in> set ys \<or> q = ?p \<or> q \<in> set zs"
      by (subst (asm) split) auto
    then show ?thesis using before after later by fastforce
  qed
  let ?h = "\<lparr>hint_row = fst ?p, hint_col = snd ?p, hint_value = cell s (fst ?p) (snd ?p)\<rparr>"
  have "getHint g s = Some ?h" using ne by (simp add: getHint_unfold)
  moreover have "cell g (hint_row ?h) (hint_col ?h) = Some EMPTY_CELL" using pempty by simp
  moreover have "\<forall>r<9. \<forall>c<9. cell g r c = Some EMPTY_CELL \<longrightarrow>
              possibilities g (hint_row ?h, hint_col ?h) \<le> possibilities g (r, c) \<and>
              (possibilities g (r, c) = possibilities g (hint_row ?h, hint_col ?h) \<longrightarrow>
                 row_major_index (hint_row ?h, hint_col ?h) \<le> row_major_index (r, c))"
  proof (intro allI impI)
    fix r c :: nat assume "r < 9" "c < 9" "cell g r c = Some EMPTY_CELL"
    then have "(r, c) \<in> set ?xs" unfolding set_findEmptyCells by simp
    from key [OF this] show "possibilities g (hint_row ?h, hint_col ?h) \<le> possibilities g (r, c) \<and>
              (possibilities g (r, c) = possibilities g (hint_row ?h, hint_col ?h) \<longrightarrow>
                 row_major_index (hint_row ?h, hint_col ?h) \<le> row_major_index (r, c))"
      by simp
  qed
  ultimately show ?thesis by blast
qed

theorem getHint_most_constrained_first_witness:
  "getHint hint_example zero_seed_solution = Some \<lparr>hint_row = 0, hint_col = 1, hint_value = Some 3\<rparr>
   \<and> possibilities hint_example (0, 1) \<le> possibilities hint_example (4, 4)"
proof -
  from getHint_most_constrained_first [of 4 4 hint_example zero_seed_solution] hint_example_empty(2)
  obtain h where h: "getHint hint_example zero_seed_solution = Some h"
    and least: "\<forall>r<9. \<forall>c<9. cell hint_example r c = Some 0 \<longrightarrow>
              possibilities hint_example (hint_row h, hint_col h) \<le> possibilities hint_example (r, c)"
    by auto
  from h getHint_hint_example have "hint_row h = 0" "hint_col h = 1" by auto
  with least hint_example_empty(2) have "possibilities hint_example (0, 1) \<le> possibilities hint_example (4, 4)"
    by auto
  with getHint_hint_example show ?thesis by simp
qed

section \<open>Claims about the solver\<close>

lemma solveSudoku_stuck_example: "\<not> fst (solveSudoku stuck_example 0 rng0)"
  by code_simp

text \<open>
  C10. Whenever \<^verbatim>\<open>solveSudoku\<close> returns false, from any grid and any starting depth (the search
  is exhausted or the depth is above 1000), the grid is left exactly as it was at entry: every
  cell placed during the failed search has been cleared again.
\<close>

theorem solveSudoku_failure_restores:
  "solveSudoku g depth rng = (False, g', rng') \<Longrightarrow> g' = g"
  using solveSudoku_failure_restores_aux(1) by blast

theorem solveSudoku_failure_restores_witness:
  "\<not> fst (solveSudoku stuck_example 0 rng0) \<and>
   fst (snd (solveSudoku stuck_example 0 rng0)) = stuck_example \<and>
   solveSudoku zero_seed_solution 1001 rng0 = (False, zero_seed_solution, rng0)"
proof -
  have "solveSudoku stuck_example 0 rng0 =
        (False, fst (snd (solveSudoku stuck_example 0 rng0)), snd (snd (solveSudoku stuck_example 0 rng0)))"
    using solveSudoku_stuck_example by (metis prod.collapse)
  from solveSudoku_failure_restores [OF this] solveSudoku_stuck_example
  show ?thesis by simp
qed

section \<open>Claims about uniqueness, carving and generation\<close>

lemma zero_seed_solution_complete: "findEmptyCells zero_seed_solution = []"
  by code_simp






text \<open>
  C1. For every 9x9 grid with no empty cell (in particular every complete valid solution)
  and every target clue count, the grid that \<^verbatim>\<open>removeCells\<close> returns, and the one that its
  fallback \<^verbatim>\<open>removeSymmetricCells\<close> returns, has \<^verbatim>\<open>countSolutions(puzzle, 2) = 1\<close> and at least
  17 nonzero cells.
\<close>

theorem removeCells_unique_min17:
  assumes "wf_grid g" and "findEmptyCells g = []"
  shows "countSolutions (fst (removeCells g clues rng)) 2 = 1 \<and>
         17 \<le> clueCount (fst (removeCells g clues rng)) \<and>
         countSolutions (fst (removeSymmetricCells g clues rng)) 2 = 1 \<and>
         17 \<le> clueCount (fst (removeSymmetricCells g clues rng))"
proof -
  have start: "carve_ok g" using assms by (rule carve_ok_complete)
  have "carve_ok (fst (removeCells g clues rng))"
    using carve_ok_step carve_ok_step2 start by (rule removeCells_invariant)
  moreover have "carve_ok (fst (removeSymmetricCells g clues rng))"
    using carve_ok_step2 start by (rule removeSymmetricCells_invariant)
  ultimately show ?thesis by (simp add: carve_ok_def)
qed

theorem removeCells_unique_min17_witness:
  "countSolutions (fst (removeCells zero_seed_solution 22 rng0)) 2 = 1 \<and>
   17 \<le> clueCount (fst (removeCells zero_seed_solution 22 rng0)) \<and>
   countSolutions (fst (removeSymmetricCells zero_seed_solution 22 rng0)) 2 = 1 \<and>
   17 \<le> clueCount (fst (removeSymmetricCells zero_seed_solution 22 rng0))"
  using removeCells_unique_min17 [OF wf_zero_seed_solution zero_seed_solution_complete] .

text \<open>
  C9. Whenever \<^verbatim>\<open>generatePuzzle\<close> returns a pair, puzzle and solution are 9x9 grids and every
  cell of the puzzle is 0 or equal to the solution's cell at the same position.
\<close>

theorem generatePuzzle_agrees_with_solution:
  assumes "generatePuzzle difficulty maxRetries rng = (Inr (puzzle, solution), warnings)"
  shows "wf_grid puzzle \<and> wf_grid solution \<and>
         (\<forall>r<9. \<forall>c<9. puzzle ! r ! c = EMPTY_CELL \<or> puzzle ! r ! c = solution ! r ! c)"
  using generatePuzzle_loop_success [OF assms [unfolded generatePuzzle_def]]
  by (simp add: agrees_iff)

text \<open>The pair that \<^verbatim>\<open>generatePuzzle('easy', 3)\<close> returns when every random draw is 0.\<close>

definition easy_solution :: grid where
  "easy_solution = fst (generateCompleteSudoku rng0)"

definition easy_puzzle :: grid where
  "easy_puzzle = fst (removeCells easy_solution 45 (snd (generateCompleteSudoku rng0)))"

lemma DIFFICULTY_CONFIGS_easy: "map_option config_clues (DIFFICULTY_CONFIGS ''easy'') = Some 45"
  by (simp add: DIFFICULTY_CONFIGS_def)

lemma generatePuzzle_easy: "generatePuzzle ''easy'' 3 rng0 = (Inr (easy_puzzle, easy_solution), [])"
proof -
  from DIFFICULTY_CONFIGS_easy obtain config where
    "DIFFICULTY_CONFIGS ''easy'' = Some config" "config_clues config = 45" by auto
  then show ?thesis
    using generatePuzzle_loop_configured [of "''easy''" config 1 3 None "[]" rng0]
    by (simp add: generatePuzzle_def easy_puzzle_def easy_solution_def)
qed

theorem generatePuzzle_agrees_with_solution_witness:
  "generatePuzzle ''easy'' 3 rng0 = (Inr (easy_puzzle, easy_solution), []) \<and>
   wf_grid easy_puzzle \<and> wf_grid easy_solution \<and>
   (easy_puzzle ! 0 ! 0 = 0 \<or> easy_puzzle ! 0 ! 0 = easy_solution ! 0 ! 0)"
  using generatePuzzle_agrees_with_solution [OF generatePuzzle_easy] generatePuzzle_easy by simp





end
